theory Spec2Isabelle
  imports Main "HOL-Library.Sublist"
begin

section \<open>Text values\<close>

text \<open>
  A Python \<open>str\<close> is a sequence of Unicode code points, and the two library operations the
  sanitizer relies on (\<open>str.strip\<close> and case-insensitive matching in \<open>re\<close>) look at code
  points outside the 8-bit range, so a text is modelled as a list of code points.
  \<open>str\<close> embeds an ASCII literal.
\<close>

type_synonym codepoint = nat
type_synonym pystr = "codepoint list"

definition str :: "string \<Rightarrow> pystr" where
  "str s = map of_char s"

text \<open>
  \<open>str.strip()\<close> without an argument removes the leading and trailing code points for which
  CPython's \<open>Py_UNICODE_ISSPACE\<close> holds.
\<close>

definition isspace :: "codepoint \<Rightarrow> bool" where
  "isspace c \<longleftrightarrow>
     (0x09 \<le> c \<and> c \<le> 0x0D) \<or> (0x1C \<le> c \<and> c \<le> 0x20) \<or> c = 0x85 \<or> c = 0xA0 \<or>
     c = 0x1680 \<or> (0x2000 \<le> c \<and> c \<le> 0x200A) \<or> c = 0x2028 \<or> c = 0x2029 \<or>
     c = 0x202F \<or> c = 0x205F \<or> c = 0x3000"

definition strip :: "pystr \<Rightarrow> pystr" where
  "strip s = rev (dropWhile isspace (rev (dropWhile isspace s)))"

section \<open>Content sanitizer\<close>

text \<open>
  Every pattern of \<open>cleaner_tool\<close> has the shape \<^verbatim>\<open>(?i)<head>.*\<close> and is used with
  \<open>re.DOTALL\<close>: an ASCII head matched case-insensitively, followed by \<open>.*\<close>, which under
  \<open>DOTALL\<close> accepts every remainder of the text, line breaks included. A pattern is therefore
  represented by its head, and it matches at a position exactly when its head does.

  \<open>matched_by p\<close> lists the code points a head character \<open>p\<close> accepts under \<open>(?i)\<close> for a
  \<open>str\<close> pattern: a character without case accepts itself; a letter accepts the code points
  whose simple lower-case mapping is its lower-case form (the two ASCII forms, U+0130 for
  \<open>i\<close>, the Kelvin sign U+212A for \<open>k\<close>) and the extra equivalents of the engine's
  case-fixing table (U+0131 for \<open>i\<close>, U+017F for \<open>s\<close>).
\<close>

definition iscased :: "codepoint \<Rightarrow> bool" where
  "iscased p \<longleftrightarrow> (0x41 \<le> p \<and> p \<le> 0x5A) \<or> (0x61 \<le> p \<and> p \<le> 0x7A)"

definition tolower :: "codepoint \<Rightarrow> codepoint" where
  "tolower p = (if 0x41 \<le> p \<and> p \<le> 0x5A then p + 0x20 else p)"

definition matched_by :: "codepoint \<Rightarrow> codepoint list" where
  "matched_by p =
     (if iscased p then
        (let lo = tolower p in
           [lo, lo - 0x20]
           @ (if lo = 0x69 then [0x130, 0x131] else [])
           @ (if lo = 0x6B then [0x212A] else [])
           @ (if lo = 0x73 then [0x17F] else []))
      else [p])"

definition literal_ignore :: "codepoint \<Rightarrow> codepoint \<Rightarrow> bool" where
  "literal_ignore p c \<longleftrightarrow> c \<in> set (matched_by p)"

text \<open>\<open>match_here head s\<close>: the pattern matches at the very start of \<open>s\<close>.\<close>

fun match_here :: "pystr \<Rightarrow> pystr \<Rightarrow> bool" where
  "match_here [] s = True"
| "match_here (p # ps) [] = False"
| "match_here (p # ps) (c # cs) = (literal_ignore p c \<and> match_here ps cs)"

text \<open>\<open>re_search head s\<close>: the start of the leftmost match in \<open>s\<close>, if there is one.\<close>

fun re_search :: "pystr \<Rightarrow> pystr \<Rightarrow> nat option" where
  "re_search head [] = (if match_here head [] then Some 0 else None)"
| "re_search head (c # cs) =
     (if match_here head (c # cs) then Some 0 else map_option Suc (re_search head cs))"

text \<open>
  \<open>re.split(p, clean, flags=re.DOTALL)[0]\<close>: the text before the leftmost match, or the whole
  text when the pattern does not match.
\<close>

definition re_split_0 :: "pystr \<Rightarrow> pystr \<Rightarrow> pystr" where
  "re_split_0 head s = (case re_search head s of None \<Rightarrow> s | Some i \<Rightarrow> take i s)"

definition patterns :: "pystr list" where
  "patterns =
     [str ''I made the following'', str ''Refined for clarity'',
      str ''Note:'', str ''Simplified sentence'']"

text \<open>
  \<^verbatim>\<open>
  clean = content
  for p in patterns:
      clean = re.split(p, clean, flags=re.DOTALL)[0]
  return clean.strip()
  \<close>
\<close>

definition split_all :: "pystr list \<Rightarrow> pystr \<Rightarrow> pystr" where
  "split_all ps content = foldl (\<lambda>clean p. re_split_0 p clean) content ps"

definition cleaner_tool :: "pystr \<Rightarrow> pystr" where
  "cleaner_tool content = strip (split_all patterns content)"

text \<open>
  The sentence "only the first matching pattern in the text takes effect", as a function:
  the patterns are tried in their order and the first one that matches truncates the text.
\<close>

fun first_pattern_split :: "pystr list \<Rightarrow> pystr \<Rightarrow> pystr" where
  "first_pattern_split [] s = s"
| "first_pattern_split (p # ps) s =
     (case re_search p s of None \<Rightarrow> first_pattern_split ps s | Some i \<Rightarrow> take i s)"

definition first_pattern_sanitize :: "pystr \<Rightarrow> pystr" where
  "first_pattern_sanitize content = strip (first_pattern_split patterns content)"

text \<open>
  \<open>earliest ps s c\<close>: the least of \<open>c\<close> and the starts of the leftmost matches in \<open>s\<close> of the
  patterns \<open>ps\<close>.
\<close>

fun earliest :: "pystr list \<Rightarrow> pystr \<Rightarrow> nat \<Rightarrow> nat" where
  "earliest [] s c = c"
| "earliest (p # ps) s c =
     earliest ps s (case re_search p s of None \<Rightarrow> c | Some i \<Rightarrow> min c i)"

text \<open>
  Overlap of two heads. \<open>heads_meet p q\<close>: up to the length of the shorter head, each
  position has a code point both heads accept, so one text can start with a match of
  both. \<open>straddles p q\<close>: a proper, non-empty suffix of \<open>p\<close> meets \<open>q\<close>, so a match of \<open>p\<close> can
  start before a match of \<open>q\<close> and reach into it. \<open>ordered_free seen ps\<close>: no pattern of \<open>ps\<close>
  straddles a pattern that comes before it in \<open>ps\<close> or is in \<open>seen\<close>.
\<close>

fun heads_meet :: "pystr \<Rightarrow> pystr \<Rightarrow> bool" where
  "heads_meet [] q = True"
| "heads_meet (a # p) [] = True"
| "heads_meet (a # p) (b # q) = (list_ex (literal_ignore b) (matched_by a) \<and> heads_meet p q)"

fun suffix_meets :: "pystr \<Rightarrow> pystr \<Rightarrow> bool" where
  "suffix_meets [] q = False"
| "suffix_meets (a # p) q = (heads_meet (a # p) q \<or> suffix_meets p q)"

definition straddles :: "pystr \<Rightarrow> pystr \<Rightarrow> bool" where
  "straddles p q = suffix_meets (tl p) q"

fun ordered_free :: "pystr list \<Rightarrow> pystr list \<Rightarrow> bool" where
  "ordered_free seen [] = True"
| "ordered_free seen (p # ps) =
     (list_all (\<lambda>q. \<not> straddles p q) seen \<and> ordered_free (p # seen) ps)"

section \<open>Exceptions\<close>

text \<open>
  An exception that ends a call is the \<open>Inl\<close> of its result: a failing search, a failing
  model call, the \<open>TypeError\<close> of indexing \<open>None\<close>, and the \<open>ValueError\<close> the layout library
  raises for markup it cannot parse.
\<close>

datatype error = SearchError | ModelError | TypeError | ValueError

section \<open>Document export\<close>





text \<open>\<open>text.split(sep)\<close> for a separator of one character.\<close>

fun split :: "codepoint \<Rightarrow> pystr \<Rightarrow> pystr list" where
  "split sep [] = [[]]"
| "split sep (c # cs) =
     (let r = split sep cs in if c = sep then [] # r else (c # hd r) # tl r)"











subsection \<open>Library parameters for the examples\<close>






section \<open>Collaborators and tools\<close>

text \<open>
  The search client and the language model are external services. A call either raises
  (\<open>Inl\<close>) or returns (\<open>Inr\<close>). One value of \<open>collaborators\<close> fixes how the services answer
  during one button handler; the model may answer differently in the next handler, which
  is run with another value. Inside one handler the writer and the reviewer prompts differ
  (they start with different sentences), so a function of the prompt leaves both answers
  free.
\<close>

record search_result =
  content :: pystr
  url :: pystr

record collaborators =
  tavily_search :: "pystr \<Rightarrow> error + search_result list"
  llm_invoke :: "pystr \<Rightarrow> error + pystr"

text \<open>\<open>sep.join(xs)\<close>\<close>

fun join :: "pystr \<Rightarrow> pystr list \<Rightarrow> pystr" where
  "join sep [] = []"
| "join sep [x] = x"
| "join sep (x # y # ys) = x @ sep @ join sep (y # ys)"

text \<open>
  \<open>research_tool\<close> returns the dictionary \<open>{"notes": ..., "urls": ...}\<close>, modelled as the pair
  of its two values.
\<close>

definition research_tool :: "collaborators \<Rightarrow> pystr \<Rightarrow> error + pystr \<times> pystr list" where
  "research_tool c topic =
     (case tavily_search c topic of
        Inl e \<Rightarrow> Inl e
      | Inr results \<Rightarrow>
          Inr (join (str ''\<newline>'') (map content results), map url results))"

definition writer_prompt :: "pystr \<Rightarrow> pystr \<Rightarrow> pystr \<Rightarrow> pystr \<Rightarrow> pystr \<Rightarrow> pystr" where
  "writer_prompt topic content_type notes tone feedback =
     str ''Topic: '' @ topic @ str ''\<newline>Type: '' @ content_type @ str ''\<newline>Tone: '' @ tone
     @ str ''\<newline>Notes: '' @ notes @ str ''\<newline>Feedback: '' @ feedback"

definition writer_tool ::
  "collaborators \<Rightarrow> pystr \<Rightarrow> pystr \<Rightarrow> pystr \<Rightarrow> pystr \<Rightarrow> pystr \<Rightarrow> error + pystr" where
  "writer_tool c topic content_type notes tone feedback =
     llm_invoke c (str ''Draft content. No intro/outro/meta-talk. Just the content: ''
                   @ writer_prompt topic content_type notes tone feedback)"

definition reviewer_tool :: "collaborators \<Rightarrow> pystr \<Rightarrow> error + pystr" where
  "reviewer_tool c draft =
     llm_invoke c (str ''Critique this draft. Score 1-10 and list 3 strengths: '' @ draft)"

section \<open>Agent state and nodes\<close>

record AgentState =
  topic :: pystr
  content_type :: pystr
  tone :: pystr
  "notes" :: pystr
  urls :: "pystr list"
  draft :: pystr
  review :: pystr
  feedback :: pystr

text \<open>
  A node reads the state and returns the dictionary of the fields it produced; the caller
  merges it. The returned dictionary is modelled by its values.
\<close>

definition research_node :: "collaborators \<Rightarrow> AgentState \<Rightarrow> error + pystr \<times> pystr list" where
  "research_node c state =
     (case research_tool c (topic state) of
        Inl e \<Rightarrow> Inl e
      | Inr res \<Rightarrow> Inr (fst res, snd res))"

definition writer_node :: "collaborators \<Rightarrow> AgentState \<Rightarrow> error + pystr" where
  "writer_node c state =
     (case writer_tool c (topic state) (content_type state) (notes state) (tone state)
             (feedback state) of
        Inl e \<Rightarrow> Inl e
      | Inr raw \<Rightarrow> Inr (cleaner_tool raw))"

definition reviewer_node :: "collaborators \<Rightarrow> AgentState \<Rightarrow> error + pystr" where
  "reviewer_node c state =
     (case reviewer_tool c (draft state) of
        Inl e \<Rightarrow> Inl e
      | Inr audit \<Rightarrow> Inr audit)"

section \<open>Button handlers\<close>

definition initial_state :: "pystr \<Rightarrow> pystr \<Rightarrow> pystr \<Rightarrow> AgentState" where
  "initial_state topic_in ctype_in tone_in =
     \<lparr>topic = topic_in, content_type = ctype_in, tone = tone_in,
      notes = [], urls = [], draft = [], review = [], feedback = []\<rparr>"

text \<open>
  The handler of "Begin Transmutation" works on local dictionaries and assigns the session's
  \<open>agent_state\<close> only after the three nodes have returned: \<open>begin_transmutation\<close> is the value
  it assigns, or the exception that ends the handler before the assignment.
\<close>

definition begin_transmutation ::
  "collaborators \<Rightarrow> pystr \<Rightarrow> pystr \<Rightarrow> pystr \<Rightarrow> error + AgentState" where
  "begin_transmutation c topic_in ctype_in tone_in =
     (let initial = initial_state topic_in ctype_in tone_in in
      case research_node c initial of
        Inl e \<Rightarrow> Inl e
      | Inr r_state \<Rightarrow>
          (case writer_node c (initial\<lparr>notes := fst r_state, urls := snd r_state\<rparr>) of
             Inl e \<Rightarrow> Inl e
           | Inr w_state \<Rightarrow>
               (case reviewer_node c
                       (initial\<lparr>notes := fst r_state, urls := snd r_state, draft := w_state\<rparr>) of
                  Inl e \<Rightarrow> Inl e
                | Inr rev_state \<Rightarrow>
                    Inr (initial\<lparr>notes := fst r_state, urls := snd r_state,
                                 draft := w_state, review := rev_state\<rparr>))))"

text \<open>
  The handler of "Trigger Rewrite Tool" works on the session's dictionary itself: it stores
  the feedback in place, calls the writer and the reviewer, and updates \<open>draft\<close> and \<open>review\<close>
  together at the end. \<open>trigger_rewrite\<close> returns the dictionary as the handler leaves it,
  with the exception that ended it, if any.
\<close>

definition trigger_rewrite ::
  "collaborators \<Rightarrow> pystr \<Rightarrow> AgentState \<Rightarrow> AgentState \<times> error option" where
  "trigger_rewrite c fb agent_state =
     (let st = agent_state\<lparr>feedback := fb\<rparr> in
      case writer_node c st of
        Inl e \<Rightarrow> (st, Some e)
      | Inr upd_w \<Rightarrow>
          (case reviewer_node c (st\<lparr>draft := upd_w\<rparr>) of
             Inl e \<Rightarrow> (st, Some e)
           | Inr upd_r \<Rightarrow> (st\<lparr>draft := upd_w, review := upd_r\<rparr>, None)))"

section \<open>Session\<close>

datatype ui_step = Idle | Gate | Finished

record session =
  agent_state :: "AgentState option"
  ui_step :: ui_step

definition new_session :: session where
  "new_session = \<lparr>agent_state = None, ui_step = Idle\<rparr>"

text \<open>
  What the human can do in one script run. The sidebar with "Begin Transmutation" is
  always shown; the rewrite and finalize buttons only at the gate; "New Project" only once
  finished. A button that is not shown cannot be pressed, so its event leaves the session
  as it is. An exception ends the script run and keeps the session as it is at that moment.
\<close>

datatype event =
    Begin collaborators pystr pystr pystr
  | Rewrite collaborators pystr
  | Finalize
  | NewProject

fun handle :: "event \<Rightarrow> session \<Rightarrow> session \<times> error option" where
  "handle (Begin c topic_in ctype_in tone_in) s =
     (case begin_transmutation c topic_in ctype_in tone_in of
        Inl e \<Rightarrow> (s, Some e)
      | Inr st \<Rightarrow> (s\<lparr>agent_state := Some st, ui_step := Gate\<rparr>, None))"
| "handle (Rewrite c fb) s =
     (if ui_step s = Gate then
        (case agent_state s of
           None \<Rightarrow> (s, Some TypeError)
         | Some st \<Rightarrow>
             (case trigger_rewrite c fb st of
                (st', err) \<Rightarrow> (s\<lparr>agent_state := Some st'\<rparr>, err)))
      else (s, None))"
| "handle Finalize s =
     (if ui_step s = Gate then (s\<lparr>ui_step := Finished\<rparr>, None) else (s, None))"
| "handle NewProject s =
     (if ui_step s = Finished then (s\<lparr>ui_step := Idle\<rparr>, None) else (s, None))"

fun run :: "event list \<Rightarrow> session \<Rightarrow> session" where
  "run [] s = s"
| "run (e # es) s = run es (fst (handle e s))"

text \<open>Any number of rewrites of one state, each with its own feedback and answers.\<close>

fun rewrite_cycles :: "(collaborators \<times> pystr) list \<Rightarrow> AgentState \<Rightarrow> AgentState" where
  "rewrite_cycles [] st = st"
| "rewrite_cycles ((c, fb) # rs) st = rewrite_cycles rs (fst (trigger_rewrite c fb st))"

text \<open>\<open>is_begin\<close>: the event starts a new project (and with it a new research step).\<close>

fun is_begin :: "event \<Rightarrow> bool" where
  "is_begin (Begin c topic_in ctype_in tone_in) = True"
| "is_begin (Rewrite c fb) = False"
| "is_begin Finalize = False"
| "is_begin NewProject = False"

section \<open>Example collaborators\<close>

text \<open>
  Concrete services for the scenarios: a search that returns two results, a model whose
  draft ends in meta-commentary, a model that is down and a search that is down.
\<close>

definition two_results :: "search_result list" where
  "two_results =
     [\<lparr>content = str ''A'', url = str ''u1''\<rparr>, \<lparr>content = str ''B'', url = str ''u2''\<rparr>]"

definition answering :: collaborators where
  "answering =
     \<lparr>tavily_search = (\<lambda>q. Inr two_results),
      llm_invoke =
        (\<lambda>prompt. if take 5 prompt = str ''Draft''
                  then Inr (str ''Great content here.\<newline>Note: I simplified the tone.'')
                  else Inr (str ''Score: 8''))\<rparr>"

definition model_down :: collaborators where
  "model_down =
     \<lparr>tavily_search = (\<lambda>q. Inr two_results), llm_invoke = (\<lambda>prompt. Inl ModelError)\<rparr>"

definition search_down :: collaborators where
  "search_down =
     \<lparr>tavily_search = (\<lambda>q. Inl SearchError),
      llm_invoke = (\<lambda>prompt. Inr (str ''Great content here.''))\<rparr>"

definition example_state :: AgentState where
  "example_state =
     \<lparr>topic = str ''AI in agriculture'', content_type = str ''Blog Post'',
      tone = str ''Formal Corporate'', notes = str ''A\<newline>B'', urls = [str ''u1'', str ''u2''],
      draft = str ''D1'', review = str ''R1'', feedback = []\<rparr>"

definition example_session :: session where
  "example_session = \<lparr>agent_state = Some example_state, ui_step = Gate\<rparr>"

section \<open>Matching: basic facts\<close>

lemma match_here_length: "match_here p s \<Longrightarrow> length p \<le> length s"
  by (induction p s rule: match_here.induct) auto

lemma match_here_append: "match_here p s \<Longrightarrow> match_here p (s @ t)"
  by (induction p s rule: match_here.induct) auto

lemma match_here_take: "match_here p (take m s) \<longleftrightarrow> length p \<le> m \<and> match_here p s"
proof (induction p s arbitrary: m rule: match_here.induct)
  case (3 p ps c cs)
  then show ?case by (cases m) auto
qed auto

lemma match_here_drop: "match_here p s \<Longrightarrow> match_here (drop d p) (drop d s)"
proof (induction p s arbitrary: d rule: match_here.induct)
  case (3 p ps c cs)
  then show ?case by (cases d) auto
qed auto

lemma re_search_Some_iff:
  "re_search p s = Some i \<longleftrightarrow>
     i \<le> length s \<and> match_here p (drop i s) \<and> (\<forall>j<i. \<not> match_here p (drop j s))"
proof (induction s arbitrary: i)
  case Nil
  then show ?case by auto
next
  case (Cons c cs)
  show ?case
  proof (cases "match_here p (c # cs)")
    case True
    then show ?thesis by (cases i) auto
  next
    case False
    show ?thesis
    proof (cases i)
      case 0
      with False show ?thesis by auto
    next
      case (Suc k)
      have "(\<forall>j<Suc k. \<not> match_here p (drop j (c # cs))) \<longleftrightarrow> (\<forall>j<k. \<not> match_here p (drop j cs))"
        using False by (auto simp: less_Suc_eq_0_disj)
      with False Suc Cons.IH [of k] show ?thesis by auto
    qed
  qed
qed

lemma all_le_Suc_split: "(\<forall>j\<le>Suc n. P j) \<longleftrightarrow> P 0 \<and> (\<forall>j\<le>n. P (Suc j))"
proof
  assume "\<forall>j\<le>Suc n. P j"
  then show "P 0 \<and> (\<forall>j\<le>n. P (Suc j))" by simp
next
  assume h: "P 0 \<and> (\<forall>j\<le>n. P (Suc j))"
  show "\<forall>j\<le>Suc n. P j"
  proof (intro allI impI)
    fix j assume "j \<le> Suc n"
    then show "P j" using h by (cases j) simp_all
  qed
qed

lemma re_search_None_iff:
  "re_search p s = None \<longleftrightarrow> (\<forall>j\<le>length s. \<not> match_here p (drop j s))"
proof (induction s)
  case Nil
  then show ?case by simp
next
  case (Cons c cs)
  then show ?case by (simp add: all_le_Suc_split)
qed

lemma match_here_Nil: "match_here p [] \<longleftrightarrow> p = []"
  by (cases p) simp_all

section \<open>Sanitizer: prefixes and absence of matches\<close>

lemma strip_sublist: "\<exists>a b. s = a @ strip s @ b"
proof -
  define t where "t = dropWhile isspace s"
  have 1: "s = takeWhile isspace s @ t" by (simp add: t_def)
  have "rev t = takeWhile isspace (rev t) @ dropWhile isspace (rev t)" by simp
  then have "t = rev (dropWhile isspace (rev t)) @ rev (takeWhile isspace (rev t))"
    by (metis rev_append rev_rev_ident)
  then have 2: "t = strip s @ rev (takeWhile isspace (rev t))"
    by (simp only: strip_def t_def)
  from 1 2 have "s = takeWhile isspace s @ strip s @ rev (takeWhile isspace (rev t))" by simp
  then show ?thesis by blast
qed

lemma strip_idem: "strip (strip s) = strip s"
proof -
  define t where "t = dropWhile isspace s"
  define u where "u = dropWhile isspace (rev t)"
  have su: "strip s = rev u" by (simp add: strip_def t_def u_def)
  have t_hd: "t = [] \<or> \<not> isspace (hd t)" unfolding t_def using hd_dropWhile by blast
  have u_hd: "u = [] \<or> \<not> isspace (hd u)" unfolding u_def using hd_dropWhile by blast
  have "rev t = takeWhile isspace (rev t) @ u" by (simp add: u_def)
  then have tu: "t = rev u @ rev (takeWhile isspace (rev t))"
    by (metis rev_append rev_rev_ident)
  have ru_hd: "rev u = [] \<or> \<not> isspace (hd (rev u))"
  proof (cases "u = []")
    case True then show ?thesis by simp
  next
    case False
    then have "hd t = hd (rev u)" using tu by (metis hd_append2 rev_is_Nil_conv)
    moreover have "t \<noteq> []" using tu False by auto
    ultimately show ?thesis using t_hd by simp
  qed
  have a: "dropWhile isspace (rev u) = rev u"
    using ru_hd by (simp add: dropWhile_eq_self_iff)
  have b: "dropWhile isspace u = u"
    using u_hd by (simp add: dropWhile_eq_self_iff)
  have "strip (rev u) = rev u" by (simp add: strip_def a b)
  with su show ?thesis by simp
qed

lemma no_match_sublist:
  assumes "re_search p (a @ t @ b) = None"
  shows "re_search p t = None"
proof -
  have "\<not> match_here p (drop j t)" if "j \<le> length t" for j
  proof
    assume "match_here p (drop j t)"
    then have "match_here p (drop j t @ b)" by (rule match_here_append)
    moreover have "drop (length a + j) (a @ t @ b) = drop j t @ b" using that by simp
    moreover have "length a + j \<le> length (a @ t @ b)" using that by simp
    ultimately show False using assms unfolding re_search_None_iff by metis
  qed
  then show ?thesis unfolding re_search_None_iff by blast
qed

lemma no_match_prefix: "re_search p s = None \<Longrightarrow> prefix t s \<Longrightarrow> re_search p t = None"
  using no_match_sublist [of p "[]" t] by (auto simp: prefix_def)

lemma no_match_strip: "re_search p s = None \<Longrightarrow> re_search p (strip s) = None"
  using no_match_sublist [of p _ "strip s"] strip_sublist [of s] by metis

lemma re_split_0_prefix: "prefix (re_split_0 p s) s"
  by (simp add: re_split_0_def take_is_prefix split: option.splits)

lemma re_split_0_no_match:
  assumes "p \<noteq> []"
  shows "re_search p (re_split_0 p s) = None"
proof (cases "re_search p s")
  case None
  then show ?thesis by (simp add: re_split_0_def)
next
  case (Some i)
  then have i: "i \<le> length s" and first: "\<forall>j<i. \<not> match_here p (drop j s)"
    by (simp_all add: re_search_Some_iff)
  have "\<not> match_here p (drop j (take i s))" if "j \<le> length (take i s)" for j
  proof (cases "j < i")
    case True
    with first show ?thesis by (simp add: drop_take match_here_take)
  next
    case False
    with assms show ?thesis by (simp add: drop_take match_here_take match_here_Nil)
  qed
  then have "re_search p (take i s) = None" unfolding re_search_None_iff by blast
  with Some show ?thesis by (simp add: re_split_0_def)
qed

lemma re_split_0_id: "re_search p s = None \<Longrightarrow> re_split_0 p s = s"
  by (simp add: re_split_0_def)

lemma split_all_Cons: "split_all (p # ps) s = split_all ps (re_split_0 p s)"
  by (simp add: split_all_def)

lemma split_all_prefix: "prefix (split_all ps s) s"
proof (induction ps arbitrary: s)
  case Nil
  then show ?case by (simp add: split_all_def)
next
  case (Cons p ps)
  have "prefix (split_all ps (re_split_0 p s)) (re_split_0 p s)" by (rule Cons.IH)
  then show ?case
    unfolding split_all_Cons using re_split_0_prefix prefix_order.trans by blast
qed

lemma split_all_no_match:
  "p \<in> set ps \<Longrightarrow> p \<noteq> [] \<Longrightarrow> re_search p (split_all ps s) = None"
proof (induction ps arbitrary: s)
  case Nil
  then show ?case by simp
next
  case (Cons q ps)
  show ?case
  proof (cases "p = q")
    case True
    with Cons.prems have "re_search p (re_split_0 q s) = None"
      by (simp add: re_split_0_no_match)
    then show ?thesis
      unfolding split_all_Cons using split_all_prefix no_match_prefix by blast
  next
    case False
    with Cons show ?thesis by (simp add: split_all_Cons)
  qed
qed

lemma split_all_id: "\<forall>p\<in>set ps. re_search p s = None \<Longrightarrow> split_all ps s = s"
  by (induction ps) (simp_all add: split_all_def re_split_0_id)

lemma patterns_nonempty: "p \<in> set patterns \<Longrightarrow> p \<noteq> []"
  by (auto simp: patterns_def str_def)

lemma cleaner_tool_no_match: "p \<in> set patterns \<Longrightarrow> re_search p (cleaner_tool x) = None"
  unfolding cleaner_tool_def
  by (intro no_match_strip split_all_no_match patterns_nonempty)

subsection \<open>Evaluating the sanitizer on a text\<close>

lemmas sanitizer_eval =
  cleaner_tool_def split_all_def patterns_def re_split_0_def literal_ignore_def
  matched_by_def iscased_def tolower_def strip_def isspace_def str_def

lemma example_clean:
  "cleaner_tool (str ''Great content here.\<newline>Note: I simplified the tone.'')
     = str ''Great content here.''"
  by (simp add: sanitizer_eval)

lemma example_note_found:
  "re_search (str ''Note:'') (str ''Great content here.\<newline>Note: I simplified the tone.'')
     = Some 20"
  by (simp add: sanitizer_eval)

lemma note_in_patterns: "str ''Note:'' \<in> set patterns"
  by (simp add: patterns_def)

section \<open>Nodes and handlers: basic facts\<close>

lemma writer_node_Inr:
  "writer_node c st = Inr d \<longleftrightarrow>
     (\<exists>raw. writer_tool c (topic st) (content_type st) (notes st) (tone st) (feedback st) = Inr raw
            \<and> d = cleaner_tool raw)"
  by (auto simp: writer_node_def split: sum.splits)

lemma reviewer_node_eq: "reviewer_node c st = reviewer_tool c (draft st)"
  by (simp add: reviewer_node_def split: sum.splits)

lemma research_node_eq: "research_node c st = research_tool c (topic st)"
  by (simp add: research_node_def split: sum.splits)

lemma begin_transmutation_Inr:
  "begin_transmutation c t ct tn = Inr st' \<longleftrightarrow>
     (\<exists>n u d r.
        research_node c (initial_state t ct tn) = Inr (n, u) \<and>
        writer_node c ((initial_state t ct tn)\<lparr>notes := n, urls := u\<rparr>) = Inr d \<and>
        reviewer_node c ((initial_state t ct tn)\<lparr>notes := n, urls := u, draft := d\<rparr>) = Inr r \<and>
        st' = (initial_state t ct tn)\<lparr>notes := n, urls := u, draft := d, review := r\<rparr>)"
  by (auto simp: begin_transmutation_def Let_def split: sum.splits)

lemma trigger_rewrite_ok:
  "snd (trigger_rewrite c fb st) = None \<longleftrightarrow>
     (\<exists>d r. writer_node c (st\<lparr>feedback := fb\<rparr>) = Inr d \<and>
            reviewer_node c (st\<lparr>feedback := fb, draft := d\<rparr>) = Inr r \<and>
            fst (trigger_rewrite c fb st) = st\<lparr>feedback := fb, draft := d, review := r\<rparr>)"
  by (auto simp: trigger_rewrite_def Let_def split: sum.splits)

lemma trigger_rewrite_failed:
  "snd (trigger_rewrite c fb st) = Some e \<Longrightarrow> fst (trigger_rewrite c fb st) = st\<lparr>feedback := fb\<rparr>"
  by (auto simp: trigger_rewrite_def Let_def split: sum.splits)

lemma trigger_rewrite_frame:
  "notes (fst (trigger_rewrite c fb st)) = notes st"
  "urls (fst (trigger_rewrite c fb st)) = urls st"
  "topic (fst (trigger_rewrite c fb st)) = topic st"
  "content_type (fst (trigger_rewrite c fb st)) = content_type st"
  "tone (fst (trigger_rewrite c fb st)) = tone st"
  "feedback (fst (trigger_rewrite c fb st)) = fb"
  by (auto simp: trigger_rewrite_def Let_def split: sum.splits)

lemma rewrite_cycles_frame:
  "notes (rewrite_cycles rs st) = notes st \<and> urls (rewrite_cycles rs st) = urls st"
  by (induction rs st rule: rewrite_cycles.induct) (simp_all add: trigger_rewrite_frame)

lemma handle_no_begin_frame:
  assumes "\<not> is_begin e"
  shows "map_option notes (agent_state (fst (handle e s))) = map_option notes (agent_state s) \<and>
         map_option urls (agent_state (fst (handle e s))) = map_option urls (agent_state s)"
proof (cases e)
  case (Rewrite c fb)
  then show ?thesis
    by (cases "agent_state s") (auto simp: case_prod_beta trigger_rewrite_frame)
qed (use assms in auto)

lemma run_no_begin_frame:
  assumes "\<forall>e\<in>set es. \<not> is_begin e"
  shows "map_option notes (agent_state (run es s)) = map_option notes (agent_state s) \<and>
         map_option urls (agent_state (run es s)) = map_option urls (agent_state s)"
  using assms
proof (induction es arbitrary: s)
  case Nil
  then show ?case by simp
next
  case (Cons e es)
  then show ?case using handle_no_begin_frame [of e s] by simp
qed

subsection \<open>The scenarios, evaluated\<close>


lemma answering_writer:
  "writer_tool answering t ct n tn f
     = Inr (str ''Great content here.\<newline>Note: I simplified the tone.'')"
  by (simp add: writer_tool_def answering_def str_def)

lemma answering_reviewer: "reviewer_tool answering d = Inr (str ''Score: 8'')"
  by (simp add: reviewer_tool_def answering_def str_def)

lemma answering_research:
  "research_tool answering t = Inr (str ''A\<newline>B'', [str ''u1'', str ''u2''])"
  by (simp add: research_tool_def answering_def two_results_def str_def)

lemma model_down_writer: "writer_tool model_down t ct n tn f = Inl ModelError"
  by (simp add: writer_tool_def model_down_def)

lemma model_down_research:
  "research_tool model_down t = Inr (str ''A\<newline>B'', [str ''u1'', str ''u2''])"
  by (simp add: research_tool_def model_down_def two_results_def str_def)

lemma rewrite_answering:
  "trigger_rewrite answering fb st
     = (st\<lparr>feedback := fb, draft := str ''Great content here.'', review := str ''Score: 8''\<rparr>,
        None)"
  by (simp add: trigger_rewrite_def writer_node_def reviewer_node_def answering_writer
      answering_reviewer example_clean)

lemma rewrite_model_down:
  "trigger_rewrite model_down fb st = (st\<lparr>feedback := fb\<rparr>, Some ModelError)"
  by (simp add: trigger_rewrite_def writer_node_def model_down_writer)

lemma example_begin:
  "begin_transmutation answering (str ''AI in agriculture'') (str ''Blog Post'')
     (str ''Formal Corporate'')
   = Inr (example_state\<lparr>draft := str ''Great content here.'', review := str ''Score: 8''\<rparr>)"
  by (simp add: begin_transmutation_def research_node_def writer_node_def reviewer_node_def
      answering_research answering_writer answering_reviewer example_clean
      initial_state_def example_state_def)

lemma example_begin_model_down:
  "begin_transmutation model_down (str ''AI in agriculture'') (str ''Blog Post'')
     (str ''Formal Corporate'') = Inl ModelError"
  by (simp add: begin_transmutation_def research_node_def writer_node_def
      model_down_research model_down_writer)

lemma example_begin_search_down:
  "begin_transmutation search_down (str ''AI in agriculture'') (str ''Blog Post'')
     (str ''Formal Corporate'') = Inl SearchError"
  by (simp add: begin_transmutation_def research_node_def research_tool_def search_down_def
      initial_state_def)

lemma example_rewrite:
  "trigger_rewrite answering (str ''more formal'') example_state
   = (example_state\<lparr>feedback := str ''more formal'', draft := str ''Great content here.'',
                     review := str ''Score: 8''\<rparr>, None)"
  by (rule rewrite_answering)

lemma example_rewrite_model_down:
  "trigger_rewrite model_down (str ''more formal'') example_state
   = (example_state\<lparr>feedback := str ''more formal''\<rparr>, Some ModelError)"
  by (rule rewrite_model_down)

lemma example_run:
  "agent_state
     (run [Begin answering (str ''AI in agriculture'') (str ''Blog Post'') (str ''Formal Corporate''),
           Rewrite model_down (str ''shorter''),
           Rewrite answering (str ''more formal'')] new_session)
   = Some (example_state\<lparr>draft := str ''Great content here.'', review := str ''Score: 8'',
                         feedback := str ''more formal''\<rparr>)"
  by (simp add: example_begin rewrite_answering rewrite_model_down new_session_def)

section \<open>Research step\<close>

text \<open>
  C7. When the search returns, the research step produces \<open>notes\<close> as the \<open>content\<close> fields
  of the results joined with one newline, in the order of the response, and \<open>urls\<close> as the
  \<open>url\<close> fields in the same order. For two results with contents "A", "B" and urls "u1",
  "u2" the notes are "A\nB" and the urls are ["u1", "u2"].
\<close>

theorem research_notes_urls:
  assumes "tavily_search c (topic st) = Inr results"
  shows "research_node c st = Inr (join (str ''\<newline>'') (map content results), map url results)"
  using assms by (simp add: research_node_def research_tool_def)

theorem research_notes_urls_witness:
  "tavily_search answering (topic example_state) = Inr two_results \<and>
   topic example_state = str ''AI in agriculture'' \<and>
   map content two_results = [str ''A'', str ''B''] \<and>
   research_node answering example_state = Inr (str ''A\<newline>B'', [str ''u1'', str ''u2''])"
proof -
  have h: "tavily_search answering (topic example_state) = Inr two_results"
    by (simp add: answering_def)
  have "join (str ''\<newline>'') (map content two_results) = str ''A\<newline>B''"
    by (simp add: two_results_def str_def)
  moreover have "map url two_results = [str ''u1'', str ''u2'']"
    by (simp add: two_results_def)
  moreover have "map content two_results = [str ''A'', str ''B'']"
    by (simp add: two_results_def)
  moreover have "topic example_state = str ''AI in agriculture''"
    by (simp add: example_state_def)
  ultimately show ?thesis using h research_notes_urls [OF h] by simp
qed

section \<open>Rewrite\<close>

text \<open>
  C2. The rewrite handler leaves \<open>notes\<close> and \<open>urls\<close> as they are, whether it succeeds or
  fails, and so does any number of rewrite cycles and any sequence of events without a new
  "Begin Transmutation"; the values stored by a successful begin are the ones the research
  node returned.
\<close>

theorem rewrite_keeps_research:
  "notes (fst (trigger_rewrite c fb st)) = notes st \<and>
   urls (fst (trigger_rewrite c fb st)) = urls st \<and>
   notes (rewrite_cycles rs st) = notes st \<and>
   urls (rewrite_cycles rs st) = urls st \<and>
   ((\<forall>e\<in>set es. \<not> is_begin e) \<longrightarrow>
      map_option notes (agent_state (run es s)) = map_option notes (agent_state s) \<and>
      map_option urls (agent_state (run es s)) = map_option urls (agent_state s)) \<and>
   (begin_transmutation c' topic_in ctype_in tone_in = Inr st' \<longrightarrow>
      research_node c' (initial_state topic_in ctype_in tone_in) = Inr (notes st', urls st'))"
proof -
  have "research_node c' (initial_state topic_in ctype_in tone_in) = Inr (notes st', urls st')"
    if "begin_transmutation c' topic_in ctype_in tone_in = Inr st'"
    using that unfolding begin_transmutation_Inr by auto
  then show ?thesis
    using run_no_begin_frame [of es s] rewrite_cycles_frame [of rs st]
    by (simp add: trigger_rewrite_frame)
qed

theorem rewrite_keeps_research_witness:
  "\<not> (\<exists>e\<in>set [Rewrite answering (str ''more formal''), Rewrite model_down (str ''shorter''),
                 Finalize]. is_begin e) \<and>
   map_option notes
     (agent_state (run [Rewrite answering (str ''more formal''),
                        Rewrite model_down (str ''shorter''), Finalize] example_session))
     = Some (str ''A\<newline>B'') \<and>
   map_option urls
     (agent_state (run [Rewrite answering (str ''more formal''),
                        Rewrite model_down (str ''shorter''), Finalize] example_session))
     = Some [str ''u1'', str ''u2''] \<and>
   begin_transmutation answering (str ''AI in agriculture'') (str ''Blog Post'')
     (str ''Formal Corporate'')
     = Inr (example_state\<lparr>draft := str ''Great content here.'', review := str ''Score: 8''\<rparr>) \<and>
   research_node answering
     (initial_state (str ''AI in agriculture'') (str ''Blog Post'') (str ''Formal Corporate''))
     = Inr (str ''A\<newline>B'', [str ''u1'', str ''u2''])"
proof -
  have h: "\<forall>e\<in>set [Rewrite answering (str ''more formal''),
                    Rewrite model_down (str ''shorter''), Finalize]. \<not> is_begin e"
    by simp
  have n: "map_option notes (agent_state example_session) = Some (str ''A\<newline>B'')"
          "map_option urls (agent_state example_session) = Some [str ''u1'', str ''u2'']"
    by (simp_all add: example_session_def example_state_def)
  have v: "notes (example_state\<lparr>draft := str ''Great content here.'', review := str ''Score: 8''\<rparr>)
             = str ''A\<newline>B''"
          "urls (example_state\<lparr>draft := str ''Great content here.'', review := str ''Score: 8''\<rparr>)
             = [str ''u1'', str ''u2'']"
    by (simp_all add: example_state_def)
  show ?thesis
    using h n v example_begin
      rewrite_keeps_research
        [of _ _ _ _ "[Rewrite answering (str ''more formal''),
                      Rewrite model_down (str ''shorter''), Finalize]"
            example_session answering "str ''AI in agriculture''" "str ''Blog Post''"
            "str ''Formal Corporate''"
            "example_state\<lparr>draft := str ''Great content here.'', review := str ''Score: 8''\<rparr>"]
    by simp
qed

text \<open>
  C6. When the rewrite handler runs to its end with feedback \<open>f\<close>, the stored feedback is
  \<open>f\<close>, the stored draft is the sanitized answer of a writer call made with the stored topic,
  content type, notes and tone and with feedback \<open>f\<close>, and the stored review is the answer
  of the reviewer to that draft. When it fails, draft and review both stay as they were.
  After a successful begin the draft is the sanitized answer of the writer (called with
  empty feedback) and the review is the reviewer's answer to that draft. So the review
  always belongs to the draft stored with it.
\<close>

theorem rewrite_draft_review:
  "(snd (trigger_rewrite c f st) = None \<longrightarrow>
      feedback (fst (trigger_rewrite c f st)) = f \<and>
      (\<exists>raw. writer_tool c (topic st) (content_type st) (notes st) (tone st) f = Inr raw \<and>
             draft (fst (trigger_rewrite c f st)) = cleaner_tool raw) \<and>
      reviewer_tool c (draft (fst (trigger_rewrite c f st)))
        = Inr (review (fst (trigger_rewrite c f st)))) \<and>
   (snd (trigger_rewrite c f st) \<noteq> None \<longrightarrow>
      draft (fst (trigger_rewrite c f st)) = draft st \<and>
      review (fst (trigger_rewrite c f st)) = review st) \<and>
   (begin_transmutation c topic_in ctype_in tone_in = Inr st' \<longrightarrow>
      (\<exists>raw. writer_tool c topic_in ctype_in (notes st') tone_in [] = Inr raw \<and>
             draft st' = cleaner_tool raw) \<and>
      reviewer_tool c (draft st') = Inr (review st'))"
proof (intro conjI impI)
  assume ok: "snd (trigger_rewrite c f st) = None"
  then obtain d r where w: "writer_node c (st\<lparr>feedback := f\<rparr>) = Inr d"
    and r: "reviewer_node c (st\<lparr>feedback := f, draft := d\<rparr>) = Inr r"
    and res: "fst (trigger_rewrite c f st) = st\<lparr>feedback := f, draft := d, review := r\<rparr>"
    unfolding trigger_rewrite_ok by blast
  show "feedback (fst (trigger_rewrite c f st)) = f" by (simp add: res)
  from w show "\<exists>raw. writer_tool c (topic st) (content_type st) (notes st) (tone st) f = Inr raw \<and>
             draft (fst (trigger_rewrite c f st)) = cleaner_tool raw"
    by (simp add: writer_node_Inr res)
  from r show "reviewer_tool c (draft (fst (trigger_rewrite c f st)))
        = Inr (review (fst (trigger_rewrite c f st)))"
    by (simp add: reviewer_node_eq res)
next
  assume "snd (trigger_rewrite c f st) \<noteq> None"
  then obtain e where "snd (trigger_rewrite c f st) = Some e" by blast
  then have res: "fst (trigger_rewrite c f st) = st\<lparr>feedback := f\<rparr>"
    by (rule trigger_rewrite_failed)
  show "draft (fst (trigger_rewrite c f st)) = draft st" by (simp add: res)
  show "review (fst (trigger_rewrite c f st)) = review st" by (simp add: res)
next
  assume "begin_transmutation c topic_in ctype_in tone_in = Inr st'"
  then obtain n u d r where
    w: "writer_node c ((initial_state topic_in ctype_in tone_in)\<lparr>notes := n, urls := u\<rparr>) = Inr d"
    and r: "reviewer_node c ((initial_state topic_in ctype_in tone_in)
                \<lparr>notes := n, urls := u, draft := d\<rparr>) = Inr r"
    and res: "st' = (initial_state topic_in ctype_in tone_in)
                \<lparr>notes := n, urls := u, draft := d, review := r\<rparr>"
    unfolding begin_transmutation_Inr by blast
  from w show "\<exists>raw. writer_tool c topic_in ctype_in (notes st') tone_in [] = Inr raw \<and>
             draft st' = cleaner_tool raw"
    by (simp add: writer_node_Inr res initial_state_def)
  from r show "reviewer_tool c (draft st') = Inr (review st')"
    by (simp add: reviewer_node_eq res)
qed

theorem rewrite_draft_review_witness:
  "snd (trigger_rewrite answering (str ''more formal'') example_state) = None \<and>
   feedback (fst (trigger_rewrite answering (str ''more formal'') example_state))
     = str ''more formal'' \<and>
   draft (fst (trigger_rewrite answering (str ''more formal'') example_state))
     = str ''Great content here.'' \<and>
   reviewer_tool answering (str ''Great content here.'') = Inr (str ''Score: 8'') \<and>
   review (fst (trigger_rewrite answering (str ''more formal'') example_state))
     = str ''Score: 8'' \<and>
   snd (trigger_rewrite model_down (str ''more formal'') example_state) \<noteq> None \<and>
   draft (fst (trigger_rewrite model_down (str ''more formal'') example_state)) = str ''D1'' \<and>
   review (fst (trigger_rewrite model_down (str ''more formal'') example_state)) = str ''R1'' \<and>
   begin_transmutation answering (str ''AI in agriculture'') (str ''Blog Post'')
     (str ''Formal Corporate'')
     = Inr (example_state\<lparr>draft := str ''Great content here.'', review := str ''Score: 8''\<rparr>)"
proof -
  have a: "snd (trigger_rewrite answering (str ''more formal'') example_state) = None"
    by (simp add: example_rewrite)
  have b: "snd (trigger_rewrite model_down (str ''more formal'') example_state) \<noteq> None"
    by (simp add: example_rewrite_model_down)
  have d: "draft example_state = str ''D1''" "review example_state = str ''R1''"
    by (simp_all add: example_state_def)
  note t = rewrite_draft_review
    [of answering "str ''more formal''" example_state "str ''AI in agriculture''"
        "str ''Blog Post''" "str ''Formal Corporate''"
        "example_state\<lparr>draft := str ''Great content here.'', review := str ''Score: 8''\<rparr>"]
  note t' = rewrite_draft_review [of model_down "str ''more formal''" example_state]
  have 1: "reviewer_tool answering (draft (fst (trigger_rewrite answering (str ''more formal'') example_state)))
        = Inr (review (fst (trigger_rewrite answering (str ''more formal'') example_state)))"
    using t a by blast
  have 2: "draft (fst (trigger_rewrite model_down (str ''more formal'') example_state)) = draft example_state \<and>
      review (fst (trigger_rewrite model_down (str ''more formal'') example_state)) = review example_state"
    using t' b by blast
  show ?thesis
    using a b d 1 2 example_begin by (simp add: example_rewrite)
qed

section \<open>Failing collaborator calls\<close>

text \<open>
  C8 as stated: a failing collaborator call leaves every field of the session state as it
  was before the failing step began. The rewrite handler stores the new feedback in the
  session's dictionary before it calls the writer, so when the model is down the state
  differs from the one the handler started with.
\<close>

theorem rewrite_failure_counterexample:
  "snd (trigger_rewrite model_down (str ''more formal'') example_state) = Some ModelError \<and>
   feedback example_state = [] \<and>
   feedback (fst (trigger_rewrite model_down (str ''more formal'') example_state))
     = str ''more formal'' \<and>
   fst (trigger_rewrite model_down (str ''more formal'') example_state) \<noteq> example_state"
proof -
  have "str ''more formal'' \<noteq> []" by (simp add: str_def)
  moreover have "feedback example_state = []" by (simp add: example_state_def)
  ultimately show ?thesis
    by (auto simp: example_rewrite_model_down dest: arg_cong [where f = feedback])
qed

text \<open>
  C8, amended. A handler that ends with an exception leaves the session as it was, with
  one exception: a failing rewrite has already stored the new feedback, and changes no
  other field. In particular a begin that fails at the research, writer or reviewer call
  changes nothing, also when earlier calls of the same run succeeded.
\<close>

theorem failing_step_state:
  "(snd (handle ev s) = Some e \<longrightarrow>
      fst (handle ev s) =
        (case ev of
           Rewrite c fb \<Rightarrow>
             s\<lparr>agent_state := map_option (\<lambda>st. st\<lparr>feedback := fb\<rparr>) (agent_state s)\<rparr>
         | _ \<Rightarrow> s)) \<and>
   (snd (trigger_rewrite c' fb' st) = Some e' \<longrightarrow>
      fst (trigger_rewrite c' fb' st) = st\<lparr>feedback := fb'\<rparr>)"
proof (intro conjI impI)
  assume f: "snd (handle ev s) = Some e"
  show "fst (handle ev s) =
        (case ev of
           Rewrite c fb \<Rightarrow>
             s\<lparr>agent_state := map_option (\<lambda>st. st\<lparr>feedback := fb\<rparr>) (agent_state s)\<rparr>
         | _ \<Rightarrow> s)"
  proof (cases ev)
    case (Begin c t ct tn)
    with f show ?thesis by (auto split: sum.splits)
  next
    case (Rewrite c fb)
    show ?thesis
    proof (cases "agent_state s")
      case None
      with f Rewrite show ?thesis by (auto split: if_splits)
    next
      case (Some st0)
      with f Rewrite have "snd (trigger_rewrite c fb st0) = Some e"
        by (auto simp: case_prod_beta split: if_splits)
      then have "fst (trigger_rewrite c fb st0) = st0\<lparr>feedback := fb\<rparr>"
        by (rule trigger_rewrite_failed)
      with f Rewrite Some show ?thesis by (auto simp: case_prod_beta split: if_splits)
    qed
  next
    case Finalize
    with f show ?thesis by (auto split: if_splits)
  next
    case NewProject
    with f show ?thesis by (auto split: if_splits)
  qed
next
  assume "snd (trigger_rewrite c' fb' st) = Some e'"
  then show "fst (trigger_rewrite c' fb' st) = st\<lparr>feedback := fb'\<rparr>"
    by (rule trigger_rewrite_failed)
qed

theorem failing_step_state_witness:
  "snd (handle (Begin search_down (str ''AI in agriculture'') (str ''Blog Post'')
                  (str ''Formal Corporate'')) example_session) = Some SearchError \<and>
   fst (handle (Begin search_down (str ''AI in agriculture'') (str ''Blog Post'')
                  (str ''Formal Corporate'')) example_session) = example_session \<and>
   snd (handle (Begin model_down (str ''AI in agriculture'') (str ''Blog Post'')
                  (str ''Formal Corporate'')) example_session) = Some ModelError \<and>
   fst (handle (Begin model_down (str ''AI in agriculture'') (str ''Blog Post'')
                  (str ''Formal Corporate'')) example_session) = example_session \<and>
   snd (trigger_rewrite model_down (str ''more formal'') example_state) = Some ModelError \<and>
   fst (trigger_rewrite model_down (str ''more formal'') example_state)
     = example_state\<lparr>feedback := str ''more formal''\<rparr>"
proof -
  have a: "snd (handle (Begin model_down (str ''AI in agriculture'') (str ''Blog Post'')
                  (str ''Formal Corporate'')) example_session) = Some ModelError"
    by (simp add: example_begin_model_down)
  have a': "snd (handle (Begin search_down (str ''AI in agriculture'') (str ''Blog Post'')
                  (str ''Formal Corporate'')) example_session) = Some SearchError"
    by (simp add: example_begin_search_down)
  have b: "snd (trigger_rewrite model_down (str ''more formal'') example_state) = Some ModelError"
    by (simp add: rewrite_model_down)
  from a a' b
    failing_step_state
      [of "Begin model_down (str ''AI in agriculture'') (str ''Blog Post'') (str ''Formal Corporate'')"
          example_session ModelError model_down "str ''more formal''" example_state ModelError]
    failing_step_state
      [of "Begin search_down (str ''AI in agriculture'') (str ''Blog Post'') (str ''Formal Corporate'')"
          example_session SearchError model_down "str ''more formal''" example_state ModelError]
  show ?thesis by simp
qed

section \<open>The stored draft is sanitized\<close>

lemma handle_keeps_sanitized:
  assumes "\<forall>st. agent_state s = Some st \<longrightarrow> (\<exists>raw. draft st = cleaner_tool raw)"
  shows "\<forall>st. agent_state (fst (handle e s)) = Some st \<longrightarrow> (\<exists>raw. draft st = cleaner_tool raw)"
proof (cases e)
  case (Begin c t ct tn)
  show ?thesis
  proof (cases "begin_transmutation c t ct tn")
    case (Inl err)
    with Begin assms show ?thesis by simp
  next
    case (Inr st')
    then obtain raw where "draft st' = cleaner_tool raw"
      unfolding begin_transmutation_Inr writer_node_Inr by auto
    with Begin Inr show ?thesis by auto
  qed
next
  case (Rewrite c fb)
  show ?thesis
  proof (cases "ui_step s = Gate")
    case False
    with Rewrite assms show ?thesis by simp
  next
    case True
    show ?thesis
    proof (cases "agent_state s")
      case None
      with Rewrite True show ?thesis by simp
    next
      case (Some st0)
      with assms obtain raw0 where old: "draft st0 = cleaner_tool raw0" by auto
      have "\<exists>raw. draft (fst (trigger_rewrite c fb st0)) = cleaner_tool raw"
      proof (cases "snd (trigger_rewrite c fb st0)")
        case None
        then show ?thesis unfolding trigger_rewrite_ok writer_node_Inr by auto
      next
        case (Some err)
        then have "fst (trigger_rewrite c fb st0) = st0\<lparr>feedback := fb\<rparr>"
          by (rule trigger_rewrite_failed)
        with old show ?thesis by auto
      qed
      with Rewrite True Some show ?thesis by (auto simp: case_prod_beta)
    qed
  qed
next
  case Finalize
  with assms show ?thesis by simp
next
  case NewProject
  with assms show ?thesis by simp
qed

lemma run_keeps_sanitized:
  "\<forall>st. agent_state s = Some st \<longrightarrow> (\<exists>raw. draft st = cleaner_tool raw) \<Longrightarrow>
   \<forall>st. agent_state (run es s) = Some st \<longrightarrow> (\<exists>raw. draft st = cleaner_tool raw)"
proof (induction es arbitrary: s)
  case Nil
  then show ?case by simp
next
  case (Cons e es)
  from Cons.prems have "\<forall>st. agent_state (fst (handle e s)) = Some st \<longrightarrow>
      (\<exists>raw. draft st = cleaner_tool raw)"
    by (rule handle_keeps_sanitized)
  then have "\<forall>st. agent_state (run es (fst (handle e s))) = Some st \<longrightarrow>
      (\<exists>raw. draft st = cleaner_tool raw)"
    by (rule Cons.IH)
  then show ?case by (simp only: run.simps)
qed

text \<open>
  C10. Whatever the human does and whatever the services answer, a draft stored in the
  session is an output of \<open>cleaner_tool\<close>: no pattern matches in it and stripping it changes
  nothing.
\<close>

theorem stored_draft_sanitized:
  assumes "agent_state (run es new_session) = Some st"
  shows "(\<exists>raw. draft st = cleaner_tool raw) \<and>
         (\<forall>p\<in>set patterns. re_search p (draft st) = None) \<and>
         strip (draft st) = draft st"
proof -
  have "\<forall>st. agent_state new_session = Some st \<longrightarrow> (\<exists>raw. draft st = cleaner_tool raw)"
    by (simp add: new_session_def)
  then have "\<forall>st. agent_state (run es new_session) = Some st \<longrightarrow>
      (\<exists>raw. draft st = cleaner_tool raw)"
    by (rule run_keeps_sanitized)
  with assms obtain raw where raw: "draft st = cleaner_tool raw" by blast
  have 1: "\<exists>raw. draft st = cleaner_tool raw" using raw by (rule exI)
  have "strip (cleaner_tool raw) = cleaner_tool raw"
    unfolding cleaner_tool_def by (rule strip_idem)
  then have 2: "strip (draft st) = draft st" by (simp only: raw)
  have "\<forall>p\<in>set patterns. re_search p (cleaner_tool raw) = None"
    by (simp add: cleaner_tool_no_match)
  then have 3: "\<forall>p\<in>set patterns. re_search p (draft st) = None" by (simp only: raw)
  from 1 3 2 show ?thesis by (intro conjI)
qed

theorem stored_draft_sanitized_witness:
  "agent_state
     (run [Begin answering (str ''AI in agriculture'') (str ''Blog Post'') (str ''Formal Corporate''),
           Rewrite model_down (str ''shorter''),
           Rewrite answering (str ''more formal'')] new_session)
   = Some (example_state\<lparr>draft := str ''Great content here.'', review := str ''Score: 8'',
                         feedback := str ''more formal''\<rparr>) \<and>
   \<not> (\<exists>p\<in>set patterns. re_search p (str ''Great content here.'') \<noteq> None) \<and>
   strip (str ''Great content here.'') = str ''Great content here.''"
proof -
  note t = stored_draft_sanitized [OF example_run]
  have a: "\<forall>p\<in>set patterns. re_search p (str ''Great content here.'') = None"
    using t [THEN conjunct2, THEN conjunct1] by simp
  have b: "strip (str ''Great content here.'') = str ''Great content here.''"
    using t [THEN conjunct2, THEN conjunct2] by simp
  show ?thesis using example_run a b by simp
qed

section \<open>Document export: the story\<close>















subsection \<open>The export scenarios, evaluated\<close>















section \<open>Sanitizer: which truncation takes effect\<close>

lemma heads_meet_sound: "match_here p y \<Longrightarrow> match_here q y \<Longrightarrow> heads_meet p q"
proof (induction p q arbitrary: y rule: heads_meet.induct)
  case (3 a p b q)
  then obtain c cs where y: "y = c # cs" by (cases y) auto
  with 3 have "literal_ignore a c" "literal_ignore b c" "match_here p cs" "match_here q cs"
    by auto
  then show ?case
    using "3.IH" [of cs] by (auto simp: list_ex_iff literal_ignore_def)
qed simp_all

lemma suffix_meets_drop: "d < length p \<Longrightarrow> heads_meet (drop d p) q \<Longrightarrow> suffix_meets p q"
proof (induction p arbitrary: d)
  case Nil
  then show ?case by simp
next
  case (Cons a p)
  then show ?case by (cases d) auto
qed

lemma straddle_overlap:
  assumes "match_here p (drop i x)" "match_here q (drop c x)" "i < c" "c < i + length p"
  shows "straddles p q"
proof -
  define d where "d = c - i"
  have d: "0 < d" "d < length p" "d + i = c" using assms by (simp_all add: d_def)
  have "match_here (drop d p) (drop d (drop i x))"
    using assms(1) by (rule match_here_drop)
  then have "match_here (drop d p) (drop c x)" using d by simp
  then have m: "heads_meet (drop d p) q" using assms(2) by (rule heads_meet_sound)
  obtain k where k: "d = Suc k" using d by (cases d) auto
  have "drop d p = drop k (tl p)" by (simp add: k drop_Suc)
  moreover have "k < length (tl p)" using d k by simp
  ultimately have "suffix_meets (tl p) q" using m suffix_meets_drop by metis
  then show ?thesis by (simp add: straddles_def)
qed

lemma re_search_take:
  assumes "p \<noteq> []" "c \<le> length x"
  shows "re_search p (take c x) =
           (case re_search p x of
              None \<Rightarrow> None
            | Some i \<Rightarrow> if i + length p \<le> c then Some i else None)"
proof -
  have occ: "match_here p (drop j (take c x)) \<longleftrightarrow> length p \<le> c - j \<and> match_here p (drop j x)"
    for j by (simp add: drop_take match_here_take)
  show ?thesis
  proof (cases "re_search p x")
    case None
    then have "\<forall>j\<le>length x. \<not> match_here p (drop j x)" by (simp add: re_search_None_iff)
    then have "\<forall>j\<le>length (take c x). \<not> match_here p (drop j (take c x))"
      using assms(2) by (simp add: occ)
    then have "re_search p (take c x) = None" by (simp only: re_search_None_iff)
    with None show ?thesis by simp
  next
    case (Some i)
    then have i: "i \<le> length x" "match_here p (drop i x)" "\<forall>j<i. \<not> match_here p (drop j x)"
      by (simp_all add: re_search_Some_iff)
    show ?thesis
    proof (cases "i + length p \<le> c")
      case True
      have "i \<le> length (take c x)" using True assms(2) by simp
      moreover have "match_here p (drop i (take c x))" using True i(2) by (simp add: occ)
      moreover have "\<forall>j<i. \<not> match_here p (drop j (take c x))" using i(3) by (simp add: occ)
      ultimately have "re_search p (take c x) = Some i" by (simp only: re_search_Some_iff)
      with Some True show ?thesis by simp
    next
      case False
      have "\<not> match_here p (drop j (take c x))" if "j \<le> length (take c x)" for j
      proof (cases "j < i")
        case True
        with i(3) show ?thesis by (simp add: occ)
      next
        case ge: False
        have "length p \<noteq> 0" using assms(1) by simp
        with False ge have "\<not> length p \<le> c - j" by arith
        then show ?thesis by (simp add: occ)
      qed
      then have "re_search p (take c x) = None" by (simp only: re_search_None_iff) blast
      with Some False show ?thesis by simp
    qed
  qed
qed


lemma split_step:
  assumes p: "p \<noteq> []" and c: "c \<le> length x"
    and inv: "c = length x \<or> (\<exists>q\<in>set seen. match_here q (drop c x))"
    and free: "list_all (\<lambda>q. \<not> straddles p q) seen"
  shows "re_split_0 p (take c x) =
           take (case re_search p x of None \<Rightarrow> c | Some i \<Rightarrow> min c i) x"
proof (cases "re_search p x")
  case None
  then show ?thesis by (simp add: re_split_0_def re_search_take [OF p c])
next
  case (Some i)
  then have i: "i \<le> length x" "match_here p (drop i x)"
    by (simp_all add: re_search_Some_iff)
  show ?thesis
  proof (cases "i + length p \<le> c")
    case True
    then have "min c i = i" by simp
    with Some True show ?thesis
      by (simp add: re_split_0_def re_search_take [OF p c] min.absorb1)
  next
    case False
    have "c \<le> i"
    proof (rule ccontr)
      assume "\<not> c \<le> i"
      then have lt: "i < c" by simp
      have "length p \<le> length (drop i x)" using i(2) by (rule match_here_length)
      then have "i + length p \<le> length x" using i(1) by simp
      with False have "c \<noteq> length x" by auto
      with inv obtain q where q: "q \<in> set seen" "match_here q (drop c x)" by blast
      have "straddles p q"
        using i(2) q(2) lt False by (intro straddle_overlap [of p i x q c]) simp_all
      with free q(1) show False by (simp add: list_all_iff)
    qed
    then have "min c i = c" by simp
    with Some False show ?thesis
      by (simp add: re_split_0_def re_search_take [OF p c])
  qed
qed

lemma split_all_earliest:
  assumes "\<forall>p\<in>set ps. p \<noteq> []" and "c \<le> length x"
    and "c = length x \<or> (\<exists>q\<in>set seen. match_here q (drop c x))"
    and "ordered_free seen ps"
  shows "split_all ps (take c x) = take (earliest ps x c) x"
  using assms
proof (induction ps arbitrary: c seen)
  case Nil
  then show ?case by (simp add: split_all_def)
next
  case (Cons p ps)
  define c' where "c' = (case re_search p x of None \<Rightarrow> c | Some i \<Rightarrow> min c i)"
  have p: "p \<noteq> []" using Cons.prems(1) by simp
  have free: "list_all (\<lambda>q. \<not> straddles p q) seen" and rest: "ordered_free (p # seen) ps"
    using Cons.prems(4) by simp_all
  have step: "re_split_0 p (take c x) = take c' x"
    unfolding c'_def using p Cons.prems(2) Cons.prems(3) free by (rule split_step)
  have le: "c' \<le> length x"
    using Cons.prems(2) by (auto simp: c'_def min_def split: option.splits)
  have inv: "c' = length x \<or> (\<exists>q\<in>set (p # seen). match_here q (drop c' x))"
  proof (cases "c' = c")
    case True
    with Cons.prems(3) show ?thesis by auto
  next
    case False
    then obtain i where "re_search p x = Some i" "c' = i"
      by (auto simp: c'_def min_def split: option.splits if_splits)
    then have "match_here p (drop c' x)" by (simp add: re_search_Some_iff)
    then show ?thesis by simp
  qed
  have "split_all ps (take c' x) = take (earliest ps x c') x"
    using Cons.prems(1) le inv rest by (intro Cons.IH [of c' "p # seen"]) simp_all
  then show ?case by (simp add: split_all_Cons step c'_def)
qed

lemma earliest_le: "earliest ps x c \<le> c"
proof (induction ps arbitrary: c)
  case Nil
  then show ?case by simp
next
  case (Cons p ps)
  have "earliest ps x (case re_search p x of None \<Rightarrow> c | Some i \<Rightarrow> min c i)
          \<le> (case re_search p x of None \<Rightarrow> c | Some i \<Rightarrow> min c i)"
    by (rule Cons.IH)
  also have "\<dots> \<le> c" by (simp split: option.splits)
  finally show ?case by simp
qed

lemma earliest_lower: "q \<in> set ps \<Longrightarrow> re_search q x = Some j \<Longrightarrow> earliest ps x c \<le> j"
proof (induction ps arbitrary: c)
  case Nil
  then show ?case by simp
next
  case (Cons p ps)
  show ?case
  proof (cases "q = p")
    case True
    with Cons.prems have "earliest (p # ps) x c = earliest ps x (min c j)" by simp
    also have "\<dots> \<le> min c j" by (rule earliest_le)
    finally show ?thesis by simp
  next
    case False
    with Cons.prems have "q \<in> set ps" by simp
    then show ?thesis using Cons.IH Cons.prems(2) by simp
  qed
qed

lemma earliest_attained:
  "earliest ps x c = c \<or> (\<exists>p\<in>set ps. re_search p x = Some (earliest ps x c))"
proof (induction ps arbitrary: c)
  case Nil
  then show ?case by simp
next
  case (Cons p ps)
  define c' where "c' = (case re_search p x of None \<Rightarrow> c | Some i \<Rightarrow> min c i)"
  have e: "earliest (p # ps) x c = earliest ps x c'" by (simp add: c'_def)
  from Cons.IH [of c'] show ?case
  proof
    assume a: "earliest ps x c' = c'"
    show ?thesis
    proof (cases "c' = c")
      case True
      with a e show ?thesis by simp
    next
      case False
      then obtain i where "re_search p x = Some i" "c' = i"
        by (auto simp: c'_def min_def split: option.splits if_splits)
      with a e show ?thesis by simp
    qed
  next
    assume "\<exists>q\<in>set ps. re_search q x = Some (earliest ps x c')"
    with e show ?thesis by auto
  qed
qed

lemma patterns_ordered_free: "ordered_free [] patterns"
  by (simp add: patterns_def str_def straddles_def literal_ignore_def matched_by_def
      iscased_def tolower_def)

lemma split_all_patterns_earliest:
  "split_all patterns x = take (earliest patterns x (length x)) x"
proof -
  have "split_all patterns (take (length x) x) = take (earliest patterns x (length x)) x"
    using patterns_ordered_free
    by (intro split_all_earliest [of patterns "length x" x "[]"]) (simp_all add: patterns_nonempty)
  then show ?thesis by simp
qed

lemma cleaner_tool_earliest:
  "cleaner_tool x = strip (take (earliest patterns x (length x)) x)"
  by (simp add: cleaner_tool_def split_all_patterns_earliest)

lemma example_two_found:
  "re_search (str ''I made the following'') (str ''A Note: b I made the following c'') = Some 10"
  "re_search (str ''Note:'') (str ''A Note: b I made the following c'') = Some 2"
  by (simp_all add: sanitizer_eval)

lemma example_two_clean: "cleaner_tool (str ''A Note: b I made the following c'') = str ''A''"
  by (simp add: sanitizer_eval)

lemma example_two_first:
  "first_pattern_sanitize (str ''A Note: b I made the following c'') = str ''A Note: b''"
  by (simp add: first_pattern_sanitize_def sanitizer_eval)

text \<open>
  C3 as stated: when several patterns match, the truncation that takes effect is that of
  the first pattern of the priority order that matches, and the output is the text before
  that pattern's first match. In "A Note: b I made the following c" the first pattern of
  the list matches at position 10, so the output would be "A Note: b"; the loop goes on to
  the third pattern, which matches at position 2 in what is left, and the output is "A".
\<close>

theorem first_pattern_counterexample:
  "hd patterns = str ''I made the following'' \<and>
   re_search (str ''I made the following'') (str ''A Note: b I made the following c'') = Some 10 \<and>
   first_pattern_sanitize (str ''A Note: b I made the following c'') = str ''A Note: b'' \<and>
   cleaner_tool (str ''A Note: b I made the following c'') = str ''A'' \<and>
   cleaner_tool (str ''A Note: b I made the following c'')
     \<noteq> first_pattern_sanitize (str ''A Note: b I made the following c'')"
proof -
  have "hd patterns = str ''I made the following''" by (simp add: patterns_def)
  moreover have "str ''A'' \<noteq> str ''A Note: b''" by (simp add: str_def)
  ultimately show ?thesis
    by (simp add: example_two_found example_two_clean example_two_first)
qed

text \<open>
  C3, amended. Every pattern is applied, in the order of the list, to what the earlier
  ones left. When at least one pattern matches, the truncation that takes effect is the
  one at the leftmost match of any of the four patterns, whatever that pattern's place in
  the list: the output is the text strictly before that match, stripped.
\<close>

theorem cleaner_tool_earliest_match:
  assumes "\<exists>p\<in>set patterns. re_search p x \<noteq> None"
  shows "\<exists>p\<in>set patterns. \<exists>i.
           re_search p x = Some i \<and>
           (\<forall>q\<in>set patterns. \<forall>j. re_search q x = Some j \<longrightarrow> i \<le> j) \<and>
           cleaner_tool x = strip (take i x)"
proof -
  define e where "e = earliest patterns x (length x)"
  from assms obtain p0 i0 where p0: "p0 \<in> set patterns" "re_search p0 x = Some i0" by auto
  then have m: "match_here p0 (drop i0 x)" "i0 \<le> length x"
    by (simp_all add: re_search_Some_iff)
  have "length p0 \<le> length (drop i0 x)" using m(1) by (rule match_here_length)
  moreover have "p0 \<noteq> []" using p0(1) by (rule patterns_nonempty)
  ultimately have "i0 < length x" by (cases p0) auto
  moreover have "e \<le> i0" unfolding e_def using p0 by (rule earliest_lower)
  ultimately have "e \<noteq> length x" by simp
  then obtain p where p: "p \<in> set patterns" "re_search p x = Some e"
    using earliest_attained [of patterns x "length x"] unfolding e_def by auto
  have low: "\<forall>q\<in>set patterns. \<forall>j. re_search q x = Some j \<longrightarrow> e \<le> j"
    unfolding e_def using earliest_lower by blast
  have "cleaner_tool x = strip (take e x)"
    unfolding e_def by (rule cleaner_tool_earliest)
  with p low show ?thesis by blast
qed

theorem cleaner_tool_earliest_match_witness:
  "(\<exists>p\<in>set patterns. re_search p (str ''A Note: b I made the following c'') \<noteq> None) \<and>
   re_search (str ''Note:'') (str ''A Note: b I made the following c'') = Some 2 \<and>
   cleaner_tool (str ''A Note: b I made the following c'') = str ''A'' \<and>
   (\<exists>p\<in>set patterns. \<exists>i.
      re_search p (str ''A Note: b I made the following c'') = Some i \<and>
      (\<forall>q\<in>set patterns. \<forall>j.
         re_search q (str ''A Note: b I made the following c'') = Some j \<longrightarrow> i \<le> j) \<and>
      cleaner_tool (str ''A Note: b I made the following c'') = strip (take i (str ''A Note: b I made the following c'')))"
proof -
  have h: "\<exists>p\<in>set patterns. re_search p (str ''A Note: b I made the following c'') \<noteq> None"
    using note_in_patterns example_two_found(2) by (intro bexI [of _ "str ''Note:''"]) simp_all
  from h example_two_found(2) example_two_clean cleaner_tool_earliest_match [OF h]
  show ?thesis by (intro conjI)
qed

section \<open>Sanitizer: properties\<close>

lemma dropWhile_append_stop:
  "\<not> P c \<Longrightarrow> dropWhile P (u @ c # v) = dropWhile P u @ c # v"
  by (induction u) simp_all

lemma rstrip_prefix: "prefix (rev (dropWhile P (rev l))) l"
proof -
  have "rev l = takeWhile P (rev l) @ dropWhile P (rev l)" by simp
  then have "l = rev (dropWhile P (rev l)) @ rev (takeWhile P (rev l))"
    by (metis rev_append rev_rev_ident)
  then show ?thesis by (metis prefixI)
qed

lemma rstrip_keeps:
  assumes "\<not> P c"
  shows "prefix (l @ [c]) (rev (dropWhile P (rev (l @ c # v))))"
proof -
  have "dropWhile P (rev (l @ c # v)) = dropWhile P (rev v) @ c # rev l"
    using assms dropWhile_append_stop [of P c "rev v" "rev l"] by simp
  then have "rev (dropWhile P (rev (l @ c # v))) = (l @ [c]) @ rev (dropWhile P (rev v))"
    by simp
  then show ?thesis by (metis prefixI)
qed

lemma strip_cut_strict_prefix:
  assumes "\<not> isspace c"
  shows "strict_prefix (strip u) (strip (u @ c # v))"
proof -
  define l where "l = dropWhile isspace u"
  have 1: "prefix (strip u) l" unfolding strip_def l_def by (rule rstrip_prefix)
  have "dropWhile isspace (u @ c # v) = l @ c # v"
    unfolding l_def using assms by (rule dropWhile_append_stop)
  then have "strip (u @ c # v) = rev (dropWhile isspace (rev (l @ c # v)))"
    by (simp add: strip_def)
  then have 2: "prefix (l @ [c]) (strip (u @ c # v))"
    using assms rstrip_keeps [of isspace c l v] by simp
  have "strict_prefix l (l @ [c])" by (simp add: strict_prefix_def)
  with 1 2 show ?thesis
    by (meson prefix_order.dual_order.strict_trans1 prefix_order.dual_order.strict_trans2)
qed

lemma head_never_space:
  "p \<in> set patterns \<Longrightarrow> match_here p (c # cs) \<Longrightarrow> \<not> isspace c"
  by (auto simp: patterns_def str_def literal_ignore_def matched_by_def iscased_def tolower_def
      isspace_def)

lemma cut_at_match:
  assumes "\<exists>p\<in>set patterns. re_search p x \<noteq> None"
  shows "\<exists>u c v. x = u @ c # v \<and> \<not> isspace c \<and> split_all patterns x = u"
proof -
  define e where "e = earliest patterns x (length x)"
  from assms obtain p0 i0 where p0: "p0 \<in> set patterns" "re_search p0 x = Some i0" by auto
  then have m: "match_here p0 (drop i0 x)" by (simp add: re_search_Some_iff)
  have "length p0 \<le> length (drop i0 x)" using m by (rule match_here_length)
  moreover have "p0 \<noteq> []" using p0(1) by (rule patterns_nonempty)
  ultimately have "i0 < length x" by (cases p0) auto
  moreover have "e \<le> i0" unfolding e_def using p0 by (rule earliest_lower)
  ultimately have e: "e < length x" by simp
  then obtain p where p: "p \<in> set patterns" "re_search p x = Some e"
    using earliest_attained [of patterns x "length x"] unfolding e_def by auto
  then have me: "match_here p (drop e x)" by (simp add: re_search_Some_iff)
  have x: "x = take e x @ x ! e # drop (Suc e) x" using e by (rule id_take_nth_drop)
  then have "drop e x = x ! e # drop (Suc e) x" using e by (simp add: Cons_nth_drop_Suc)
  with me p(1) have "\<not> isspace (x ! e)" using head_never_space by metis
  moreover have "split_all patterns x = take e x"
    unfolding e_def by (rule split_all_patterns_earliest)
  ultimately show ?thesis using x by blast
qed

text \<open>
  C1. Whenever one of the four patterns matches somewhere in the input, the output of
  \<open>cleaner_tool\<close> is a strict prefix of the input with leading and trailing whitespace
  removed, and none of the four patterns matches in the output. The sentence is proved in
  both of its readings: the output is the strip of a strict prefix of the input, and the
  output is a strict prefix of the stripped input. (With leading whitespace in the input
  the output is not a prefix of the input as it stands.)
\<close>

theorem cleaner_tool_truncates:
  assumes "\<exists>p\<in>set patterns. re_search p x \<noteq> None"
  shows "(\<exists>y. strict_prefix y x \<and> cleaner_tool x = strip y) \<and>
         strict_prefix (cleaner_tool x) (strip x) \<and>
         (\<forall>p\<in>set patterns. re_search p (cleaner_tool x) = None)"
proof (intro conjI)
  from cut_at_match [OF assms] obtain u c v where
    x: "x = u @ c # v" and c: "\<not> isspace c" and u: "split_all patterns x = u" by blast
  have "strict_prefix u x" using x by (simp add: strict_prefix_def prefix_def)
  then show "\<exists>y. strict_prefix y x \<and> cleaner_tool x = strip y"
    using u unfolding cleaner_tool_def by blast
  have "strict_prefix (strip u) (strip (u @ c # v))" using c by (rule strip_cut_strict_prefix)
  then show "strict_prefix (cleaner_tool x) (strip x)"
    using u x by (simp add: cleaner_tool_def)
  show "\<forall>p\<in>set patterns. re_search p (cleaner_tool x) = None"
    by (simp add: cleaner_tool_no_match)
qed

theorem cleaner_tool_truncates_witness:
  "(\<exists>p\<in>set patterns.
      re_search p (str ''Great content here.\<newline>Note: I simplified the tone.'') \<noteq> None) \<and>
   cleaner_tool (str ''Great content here.\<newline>Note: I simplified the tone.'')
     = str ''Great content here.'' \<and>
   strict_prefix (str ''Great content here.'')
     (strip (str ''Great content here.\<newline>Note: I simplified the tone.'')) \<and>
   (\<exists>y. strict_prefix y (str ''Great content here.\<newline>Note: I simplified the tone.'') \<and>
        cleaner_tool (str ''Great content here.\<newline>Note: I simplified the tone.'') = strip y) \<and>
   \<not> (\<exists>p\<in>set patterns.
      re_search p (cleaner_tool (str ''Great content here.\<newline>Note: I simplified the tone.''))
        \<noteq> None)"
proof -
  have h: "\<exists>p\<in>set patterns.
      re_search p (str ''Great content here.\<newline>Note: I simplified the tone.'') \<noteq> None"
    using note_in_patterns example_note_found by (intro bexI [of _ "str ''Note:''"]) simp_all
  note v = example_clean
  show ?thesis using h v cleaner_tool_truncates [OF h] by simp
qed

text \<open>
  C4. When none of the four patterns matches in the input, \<open>cleaner_tool\<close> returns the input
  with leading and trailing whitespace removed: \<open>sanitize(text) == text.strip()\<close>.
\<close>

theorem cleaner_tool_no_match_strip:
  assumes "\<forall>p\<in>set patterns. re_search p x = None"
  shows "cleaner_tool x = strip x"
  using assms by (simp add: cleaner_tool_def split_all_id)

theorem cleaner_tool_no_match_strip_witness:
  "\<not> (\<exists>p\<in>set patterns. re_search p (str ''  Plain text.  '') \<noteq> None) \<and>
   cleaner_tool (str ''  Plain text.  '') = strip (str ''  Plain text.  '') \<and>
   strip (str ''  Plain text.  '') = str ''Plain text.''"
proof -
  have h: "\<forall>p\<in>set patterns. re_search p (str ''  Plain text.  '') = None"
    by (simp add: sanitizer_eval)
  have v: "strip (str ''  Plain text.  '') = str ''Plain text.''"
    by (simp add: sanitizer_eval)
  show ?thesis using h v cleaner_tool_no_match_strip [OF h] by simp
qed

text \<open>
  C5. \<open>cleaner_tool\<close> is idempotent: sanitizing a sanitized text changes nothing.
\<close>

theorem cleaner_tool_idempotent: "cleaner_tool (cleaner_tool x) = cleaner_tool x"
proof -
  have "split_all patterns (cleaner_tool x) = cleaner_tool x"
    by (rule split_all_id) (simp add: cleaner_tool_no_match)
  then have "cleaner_tool (cleaner_tool x) = strip (cleaner_tool x)"
    by (simp add: cleaner_tool_def)
  also have "\<dots> = cleaner_tool x" by (simp add: cleaner_tool_def strip_idem)
  finally show ?thesis .
qed

end
